theory Spec2Isabelle
  imports Complex_Main
begin

section \<open>The CHP stabilizer simulator of \<open>chp_sim/chp_simulator.py\<close>\<close>

subsection \<open>Errors and data\<close>

text \<open>
  The two ways a call of the simulator can raise: numpy's \<open>IndexError\<close> on an index
  outside the array, and the \<open>assert\<close> statements of the source.
\<close>

datatype error = IndexError | AssertionError

text \<open>
  \<open>ChpSimulator\<close> holds \<open>_n\<close> and the boolean matrix \<open>_table\<close> of shape
  \<open>(2n+1, 2n+1)\<close>. The attributes \<open>_x\<close>, \<open>_z\<close> and \<open>_r\<close> are numpy views of
  \<open>_table\<close> (columns \<open>[0, n)\<close>, columns \<open>[n, 2n)\<close>, column \<open>2n\<close>), so they are accessors
  of the one table here, and a write through a view is a write to the table.
\<close>

record ChpSimulator =
  sim_n :: nat
  sim_table :: "bool list list"

record MeasureResult =
  res_value :: bool
  res_determined :: bool

definition x_at :: "ChpSimulator \<Rightarrow> nat \<Rightarrow> nat \<Rightarrow> bool" where
  "x_at s i j = sim_table s ! i ! j"

definition z_at :: "ChpSimulator \<Rightarrow> nat \<Rightarrow> nat \<Rightarrow> bool" where
  "z_at s i j = sim_table s ! i ! (sim_n s + j)"

definition r_at :: "ChpSimulator \<Rightarrow> nat \<Rightarrow> bool" where
  "r_at s i = sim_table s ! i ! (2 * sim_n s)"

subsection \<open>\<open>pauli_product_phase\<close>\<close>

text \<open>
  Python's \<open>z2 and 2*int(x2) - 1\<close> is \<open>z2\<close> itself (False, which counts as 0 in the sum
  of the caller) when \<open>z2\<close> is false, and \<open>2*int(x2) - 1\<close> otherwise.
\<close>

definition pauli_product_phase :: "bool \<Rightarrow> bool \<Rightarrow> bool \<Rightarrow> bool \<Rightarrow> int" where
  "pauli_product_phase x1 z1 x2 z2 =
     (if x1 \<and> z1 then of_bool z2 - of_bool x2
      else if x1 then (if z2 then 2 * of_bool x2 - 1 else 0)
      else if z1 then (if x2 then 1 - 2 * of_bool z2 else 0)
      else 0)"

subsection \<open>Construction\<close>

text \<open>\<open>np.eye(m, dtype=bool)\<close>: the \<open>m \<times> m\<close> identity matrix.\<close>

definition eye :: "nat \<Rightarrow> bool list list" where
  "eye m = map (\<lambda>i. map (\<lambda>j. i = j) [0..<m]) [0..<m]"

definition new :: "nat \<Rightarrow> ChpSimulator" where
  "new num_qubits = \<lparr>sim_n = num_qubits, sim_table = eye (2 * num_qubits + 1)\<rparr>"

subsection \<open>Indexing a view\<close>

text \<open>
  numpy resolves an integer index against an axis of length \<open>m\<close>: \<open>[0, m)\<close> is taken as
  it is, \<open>[-m, 0)\<close> counts from the end, anything else raises \<open>IndexError\<close>.
\<close>

definition col_index :: "nat \<Rightarrow> int \<Rightarrow> error + nat" where
  "col_index m q =
     (if 0 \<le> q \<and> q < int m then Inr (nat q)
      else if - int m \<le> q \<and> q < 0 then Inr (nat (q + int m))
      else Inl IndexError)"

subsection \<open>Gates\<close>

text \<open>A statement on whole columns acts on every row of the table, the scratch row included.\<close>

definition upd_rows :: "(bool list \<Rightarrow> bool list) \<Rightarrow> ChpSimulator \<Rightarrow> ChpSimulator" where
  "upd_rows f s = s\<lparr>sim_table := map f (sim_table s)\<rparr>"

definition cnot_cols :: "ChpSimulator \<Rightarrow> nat \<Rightarrow> nat \<Rightarrow> ChpSimulator" where
  "cnot_cols s c t =
     (let n = sim_n s;
          s1 = upd_rows (\<lambda>row. row[2 * n := (row ! (2 * n)) \<noteq>
                 (row ! c \<and> row ! (n + t) \<and> ((row ! t \<noteq> row ! (n + c)) \<noteq> True))]) s;
          s2 = upd_rows (\<lambda>row. row[t := (row ! t \<noteq> row ! c)]) s1;
          s3 = upd_rows (\<lambda>row. row[n + c := (row ! (n + c) \<noteq> row ! (n + t))]) s2
      in s3)"

definition cnot :: "ChpSimulator \<Rightarrow> int \<Rightarrow> int \<Rightarrow> error + ChpSimulator" where
  "cnot s control target =
     (case col_index (sim_n s) control of
        Inl e \<Rightarrow> Inl e
      | Inr c \<Rightarrow>
          (case col_index (sim_n s) target of
             Inl e \<Rightarrow> Inl e
           | Inr t \<Rightarrow> Inr (cnot_cols s c t)))"

definition hadamard_cols :: "ChpSimulator \<Rightarrow> nat \<Rightarrow> ChpSimulator" where
  "hadamard_cols s q =
     (let n = sim_n s;
          s1 = upd_rows (\<lambda>row. row[2 * n := (row ! (2 * n)) \<noteq> (row ! q \<and> row ! (n + q))]) s;
          s2 = upd_rows (\<lambda>row. row[q := (row ! q \<noteq> row ! (n + q))]) s1;
          s3 = upd_rows (\<lambda>row. row[n + q := (row ! (n + q) \<noteq> row ! q)]) s2;
          s4 = upd_rows (\<lambda>row. row[q := (row ! q \<noteq> row ! (n + q))]) s3
      in s4)"

definition hadamard :: "ChpSimulator \<Rightarrow> int \<Rightarrow> error + ChpSimulator" where
  "hadamard s qubit =
     (case col_index (sim_n s) qubit of
        Inl e \<Rightarrow> Inl e
      | Inr q \<Rightarrow> Inr (hadamard_cols s q))"

definition phase_cols :: "ChpSimulator \<Rightarrow> nat \<Rightarrow> ChpSimulator" where
  "phase_cols s q =
     (let n = sim_n s;
          s1 = upd_rows (\<lambda>row. row[2 * n := (row ! (2 * n)) \<noteq> (row ! q \<and> row ! (n + q))]) s;
          s2 = upd_rows (\<lambda>row. row[n + q := (row ! (n + q) \<noteq> row ! q)]) s1
      in s2)"

definition phase :: "ChpSimulator \<Rightarrow> int \<Rightarrow> error + ChpSimulator" where
  "phase s qubit =
     (case col_index (sim_n s) qubit of
        Inl e \<Rightarrow> Inl e
      | Inr q \<Rightarrow> Inr (phase_cols s q))"

subsection \<open>Row multiplication\<close>

text \<open>
  \<open>_row_product_sign\<close>: the sum of the phases over the \<open>n\<close> columns, the assertion that
  it is even, and the sign. Python's \<open>&\<close> and \<open>>>\<close> on a possibly negative integer are
  \<open>mod\<close> and the flooring \<open>div\<close>.
\<close>

definition row_product_sign :: "ChpSimulator \<Rightarrow> nat \<Rightarrow> nat \<Rightarrow> error + bool" where
  "row_product_sign s i k =
     (let pauli_phases = sum_list (map (\<lambda>j.
            pauli_product_phase (x_at s i j) (z_at s i j) (x_at s k j) (z_at s k j))
            [0..<sim_n s])
      in if pauli_phases mod 2 \<noteq> 0 then Inl AssertionError
         else let p = (pauli_phases div 2) mod 2
              in Inr ((r_at s i \<noteq> r_at s k) \<noteq> (p = 1)))"

text \<open>\<open>a[lo:hi] ^= b[lo:hi]\<close> on one row.\<close>

definition xor_slice :: "nat \<Rightarrow> nat \<Rightarrow> bool list \<Rightarrow> bool list \<Rightarrow> bool list" where
  "xor_slice lo hi a b =
     map (\<lambda>j. if lo \<le> j \<and> j < hi then (a ! j \<noteq> b ! j) else a ! j) [0..<length a]"

definition row_mult :: "ChpSimulator \<Rightarrow> nat \<Rightarrow> nat \<Rightarrow> error + ChpSimulator" where
  "row_mult s i k =
     (case row_product_sign s i k of
        Inl e \<Rightarrow> Inl e
      | Inr sg \<Rightarrow>
          (let n = sim_n s; t = sim_table s;
               t1 = t[i := (t ! i)[2 * n := sg]];
               t2 = t1[i := xor_slice 0 n (t1 ! i) (t1 ! k)];
               t3 = t2[i := xor_slice n (2 * n) (t2 ! i) (t2 ! k)]
           in Inr (s\<lparr>sim_table := t3\<rparr>)))"

subsection \<open>Measurement\<close>

text \<open>The loop of \<open>_measure_random\<close> over \<open>range(2*n)\<close>.\<close>

fun measure_random_loop ::
  "ChpSimulator \<Rightarrow> nat \<Rightarrow> nat \<Rightarrow> nat list \<Rightarrow> error + ChpSimulator" where
  "measure_random_loop s a p [] = Inr s"
| "measure_random_loop s a p (i # rest) =
     (if x_at s i a \<and> i \<noteq> p \<and> i \<noteq> p + sim_n s
      then (case row_mult s i p of
              Inl e \<Rightarrow> Inl e
            | Inr s' \<Rightarrow> measure_random_loop s' a p rest)
      else measure_random_loop s a p rest)"

text \<open>
  The four assignments of \<open>_measure_random(a, p, bias)\<close> before its loop: row \<open>p + n\<close>
  is copied into row \<open>p\<close>, zeroed, given a Z on qubit \<open>a\<close> and the random sign.
  \<open>rnd\<close> is the value that \<open>random.random()\<close> returns, a number in \<open>[0, 1)\<close>.
\<close>

definition measure_random_prepare ::
  "ChpSimulator \<Rightarrow> nat \<Rightarrow> nat \<Rightarrow> real \<Rightarrow> real \<Rightarrow> ChpSimulator" where
  "measure_random_prepare s a p rnd bias =
     (let n = sim_n s; t = sim_table s;
          t1 = t[p := t ! (p + n)];
          t2 = t1[p + n := map (\<lambda>_. False) (t1 ! (p + n))];
          t3 = t2[p + n := (t2 ! (p + n))[n + a := True]];
          t4 = t3[p + n := (t3 ! (p + n))[2 * n := (rnd < bias)]]
      in s\<lparr>sim_table := t4\<rparr>)"

definition measure_random ::
  "ChpSimulator \<Rightarrow> nat \<Rightarrow> nat \<Rightarrow> real \<Rightarrow> real \<Rightarrow> error + (MeasureResult \<times> ChpSimulator)" where
  "measure_random s a p rnd bias =
     (let n = sim_n s
      in if \<not> x_at s (p + n) a then Inl AssertionError
         else
           (case measure_random_loop (measure_random_prepare s a p rnd bias) a p [0..<2 * n] of
              Inl e \<Rightarrow> Inl e
            | Inr s' \<Rightarrow>
                Inr (\<lparr>res_value = r_at s' (p + n), res_determined = False\<rparr>, s')))"

text \<open>
  The calls \<open>_row_mult(i, k)\<close> that the loop of \<open>_measure_random\<close> makes, in order, as
  pairs \<open>(i, k)\<close>: the loop above with every call recorded.
\<close>

fun measure_random_calls ::
  "ChpSimulator \<Rightarrow> nat \<Rightarrow> nat \<Rightarrow> nat list \<Rightarrow> (nat \<times> nat) list" where
  "measure_random_calls s a p [] = []"
| "measure_random_calls s a p (i # rest) =
     (if x_at s i a \<and> i \<noteq> p \<and> i \<noteq> p + sim_n s
      then (case row_mult s i p of
              Inl e \<Rightarrow> [(i, p)]
            | Inr s' \<Rightarrow> (i, p) # measure_random_calls s' a p rest)
      else measure_random_calls s a p rest)"

text \<open>The loop of \<open>_measure_determined\<close>; the row index \<open>-1\<close> of the source is row \<open>2n\<close>.\<close>

fun measure_determined_loop ::
  "ChpSimulator \<Rightarrow> nat \<Rightarrow> nat list \<Rightarrow> error + ChpSimulator" where
  "measure_determined_loop s a [] = Inr s"
| "measure_determined_loop s a (i # rest) =
     (if x_at s i a
      then (case row_mult s (2 * sim_n s) (i + sim_n s) of
              Inl e \<Rightarrow> Inl e
            | Inr s' \<Rightarrow> measure_determined_loop s' a rest)
      else measure_determined_loop s a rest)"

definition measure_determined ::
  "ChpSimulator \<Rightarrow> nat \<Rightarrow> error + (MeasureResult \<times> ChpSimulator)" where
  "measure_determined s a =
     (let n = sim_n s; t = sim_table s;
          s0 = s\<lparr>sim_table := t[2 * n := map (\<lambda>_. False) (t ! (2 * n))]\<rparr>
      in (case measure_determined_loop s0 a [0..<n] of
            Inl e \<Rightarrow> Inl e
          | Inr s' \<Rightarrow>
              Inr (\<lparr>res_value = r_at s' (2 * n), res_determined = True\<rparr>, s')))"

text \<open>The loop of \<open>measure\<close> over \<open>range(n)\<close>, which returns at the first hit.\<close>

fun measure_scan ::
  "ChpSimulator \<Rightarrow> nat \<Rightarrow> real \<Rightarrow> real \<Rightarrow> nat list \<Rightarrow> error + (MeasureResult \<times> ChpSimulator)" where
  "measure_scan s a rnd bias [] = measure_determined s a"
| "measure_scan s a rnd bias (p # rest) =
     (if x_at s (p + sim_n s) a then measure_random s a p rnd bias
      else measure_scan s a rnd bias rest)"

text \<open>
  \<open>measure(qubit, bias)\<close>. The index \<open>qubit\<close> is resolved by the first read
  \<open>_x[n, qubit]\<close>, which happens exactly when \<open>n \<ge> 1\<close>; with no qubit at all no column
  is ever read.
\<close>

definition measure_sim ::
  "ChpSimulator \<Rightarrow> int \<Rightarrow> real \<Rightarrow> real \<Rightarrow> error + (MeasureResult \<times> ChpSimulator)" where
  "measure_sim s qubit rnd bias =
     (if sim_n s = 0 then measure_determined s 0
      else (case col_index (sim_n s) qubit of
              Inl e \<Rightarrow> Inl e
            | Inr a \<Rightarrow> measure_scan s a rnd bias [0..<sim_n s]))"

subsection \<open>\<open>__str__\<close>\<close>

definition cell :: "ChpSimulator \<Rightarrow> nat \<Rightarrow> nat \<Rightarrow> char" where
  "cell s row col =
     (let k = (if x_at s row col then 1 else 0) + 2 * (if z_at s row col then 1 else (0::nat))
      in [CHR ''.'', CHR ''X'', CHR ''Z'', CHR ''Y''] ! k)"

definition row_str :: "ChpSimulator \<Rightarrow> nat \<Rightarrow> string" where
  "row_str s row =
     foldl (\<lambda>result col. result @ [cell s row col])
       (if r_at s row then ''-'' else ''+'') [0..<sim_n s]"

fun join :: "string \<Rightarrow> string list \<Rightarrow> string" where
  "join sep [] = []"
| "join sep [l] = l"
| "join sep (l # ls) = l @ sep @ join sep ls"

definition str :: "ChpSimulator \<Rightarrow> string" where
  "str s =
     (let z_obs = map (row_str s) [0..<sim_n s];
          sep = [replicate (sim_n s + 1) (CHR ''-'')];
          x_obs = map (row_str s) [sim_n s..<2 * sim_n s]
      in join [CHR 0x0A] (z_obs @ sep @ x_obs))"

subsection \<open>Reachable states\<close>

text \<open>
  The states that \<open>ChpSimulator(n)\<close> with \<open>n \<ge> 1\<close> and calls of the public operations
  with arguments in range produce: qubit indices in \<open>[0, n)\<close>, control and target
  different, \<open>bias\<close> in \<open>[0, 1]\<close> and the random draw in \<open>[0, 1)\<close>.
\<close>

inductive reachable :: "ChpSimulator \<Rightarrow> bool" where
  r_new: "1 \<le> k \<Longrightarrow> reachable (new k)"
| r_cnot: "reachable s \<Longrightarrow> 0 \<le> c \<Longrightarrow> c < int (sim_n s) \<Longrightarrow> 0 \<le> t \<Longrightarrow> t < int (sim_n s) \<Longrightarrow>
     c \<noteq> t \<Longrightarrow> cnot s c t = Inr s' \<Longrightarrow> reachable s'"
| r_hadamard: "reachable s \<Longrightarrow> 0 \<le> q \<Longrightarrow> q < int (sim_n s) \<Longrightarrow>
     hadamard s q = Inr s' \<Longrightarrow> reachable s'"
| r_phase: "reachable s \<Longrightarrow> 0 \<le> q \<Longrightarrow> q < int (sim_n s) \<Longrightarrow>
     phase s q = Inr s' \<Longrightarrow> reachable s'"
| r_measure: "reachable s \<Longrightarrow> 0 \<le> q \<Longrightarrow> q < int (sim_n s) \<Longrightarrow>
     0 \<le> bias \<Longrightarrow> bias \<le> 1 \<Longrightarrow> 0 \<le> rnd \<Longrightarrow> rnd < 1 \<Longrightarrow>
     measure_sim s q rnd bias = Inr (res, s') \<Longrightarrow> reachable s'"

section \<open>Notions used in the proofs\<close>

definition and_then :: "error + 'a \<Rightarrow> ('a \<Rightarrow> error + 'b) \<Rightarrow> error + 'b" where
  "and_then r f = (case r of Inl e \<Rightarrow> Inl e | Inr v \<Rightarrow> f v)"

definition well_formed :: "ChpSimulator \<Rightarrow> bool" where
  "well_formed s =
     (length (sim_table s) = 2 * sim_n s + 1 \<and>
      (\<forall>row \<in> set (sim_table s). length row = 2 * sim_n s + 1))"

definition hadamard_row :: "nat \<Rightarrow> nat \<Rightarrow> bool list \<Rightarrow> bool list" where
  "hadamard_row n q row =
     row[2 * n := (row ! (2 * n) \<noteq> (row ! q \<and> row ! (n + q))),
         q := row ! (n + q), n + q := row ! q]"

definition phase_row :: "nat \<Rightarrow> nat \<Rightarrow> bool list \<Rightarrow> bool list" where
  "phase_row n q row =
     row[2 * n := (row ! (2 * n) \<noteq> (row ! q \<and> row ! (n + q))),
         n + q := (row ! (n + q) \<noteq> row ! q)]"

definition cnot_row :: "nat \<Rightarrow> nat \<Rightarrow> nat \<Rightarrow> bool list \<Rightarrow> bool list" where
  "cnot_row n c t row =
     row[2 * n := (row ! (2 * n) \<noteq>
            (row ! c \<and> row ! (n + t) \<and> (row ! t = row ! (n + c)))),
         t := (row ! t \<noteq> row ! c), n + c := (row ! (n + c) \<noteq> row ! (n + t))]"

fun xor_list :: "bool list \<Rightarrow> bool" where
  "xor_list [] = False"
| "xor_list (b # bs) = (b \<noteq> xor_list bs)"

definition anticommute :: "nat \<Rightarrow> bool list \<Rightarrow> bool list \<Rightarrow> bool" where
  "anticommute n a b =
     xor_list (map (\<lambda>j. (a ! j \<and> b ! (n + j)) \<noteq> (a ! (n + j) \<and> b ! j)) [0..<n])"

definition row_phases :: "nat \<Rightarrow> bool list \<Rightarrow> bool list \<Rightarrow> int" where
  "row_phases n a b =
     sum_list (map (\<lambda>j. pauli_product_phase (a ! j) (a ! (n + j)) (b ! j) (b ! (n + j))) [0..<n])"

definition row_sign :: "nat \<Rightarrow> bool list \<Rightarrow> bool list \<Rightarrow> bool" where
  "row_sign n a b = ((a ! (2 * n) \<noteq> b ! (2 * n)) \<noteq> ((row_phases n a b div 2) mod 2 = 1))"

definition mult_row :: "nat \<Rightarrow> bool list \<Rightarrow> bool list \<Rightarrow> bool list" where
  "mult_row n a b =
     map (\<lambda>j. if j < 2 * n then (a ! j \<noteq> b ! j) else row_sign n a b) [0..<2 * n + 1]"

text \<open>The rows after the loop of the random branch over the indices \<open>rows\<close>.\<close>

definition random_rows :: "nat \<Rightarrow> bool list list \<Rightarrow> nat \<Rightarrow> nat \<Rightarrow> nat list \<Rightarrow> bool list list" where
  "random_rows n t a p rows =
     map (\<lambda>i. if i \<in> set rows \<and> t ! i ! a \<and> i \<noteq> p \<and> i \<noteq> p + n
               then mult_row n (t ! i) (t ! p) else t ! i) [0..<length t]"

fun det_acc :: "nat \<Rightarrow> bool list list \<Rightarrow> nat \<Rightarrow> nat list \<Rightarrow> bool list \<Rightarrow> bool list" where
  "det_acc n t a [] acc = acc"
| "det_acc n t a (i # rest) acc =
     det_acc n t a rest (if t ! i ! a then mult_row n acc (t ! (i + n)) else acc)"

definition stabilizers_commute :: "nat \<Rightarrow> bool list list \<Rightarrow> bool" where
  "stabilizers_commute n t = (\<forall>i<n. \<forall>j<n. \<not> anticommute n (t ! (n + i)) (t ! (n + j)))"

definition zero_row :: "nat \<Rightarrow> bool list" where
  "zero_row n = replicate (2 * n + 1) False"

definition det_row :: "ChpSimulator \<Rightarrow> nat \<Rightarrow> bool list" where
  "det_row s a = det_acc (sim_n s) (sim_table s) a [0..<sim_n s] (zero_row (sim_n s))"

definition destabilizers_paired :: "nat \<Rightarrow> bool list list \<Rightarrow> bool" where
  "destabilizers_paired n t = (\<forall>i<n. \<forall>j<n. anticommute n (t ! i) (t ! (n + j)) = (i = j))"

definition tableau_inv :: "ChpSimulator \<Rightarrow> bool" where
  "tableau_inv s =
     (well_formed s \<and> stabilizers_commute (sim_n s) (sim_table s) \<and>
      destabilizers_paired (sim_n s) (sim_table s))"

definition z_row :: "nat \<Rightarrow> nat \<Rightarrow> bool \<Rightarrow> bool list" where
  "z_row n a b = (zero_row n)[n + a := True, 2 * n := b]"

definition collapse_rows :: "nat \<Rightarrow> bool list list \<Rightarrow> nat \<Rightarrow> nat \<Rightarrow> bool \<Rightarrow> bool list list" where
  "collapse_rows n t a p b =
     random_rows n (t[p := t ! (p + n), p + n := z_row n a b]) a p [0..<2 * n]"

section \<open>Properties\<close>

text \<open>
  C5 (the table part and the parity of the phase). \<open>pauli_product_phase\<close> agrees with the
  16-entry table under the encoding I = 00, X = 10, Y = 11, Z = 01, and its parity is
  additive in each argument when Paulis are added bitwise (XOR).
\<close>

theorem pauli_product_phase_table:
  "pauli_product_phase False False False False = 0 \<and>
   pauli_product_phase False False True False = 0 \<and>
   pauli_product_phase False False True True = 0 \<and>
   pauli_product_phase False False False True = 0 \<and>
   pauli_product_phase True False False False = 0 \<and>
   pauli_product_phase True False True False = 0 \<and>
   pauli_product_phase True False True True = 1 \<and>
   pauli_product_phase True False False True = - 1 \<and>
   pauli_product_phase True True False False = 0 \<and>
   pauli_product_phase True True True False = - 1 \<and>
   pauli_product_phase True True True True = 0 \<and>
   pauli_product_phase True True False True = 1 \<and>
   pauli_product_phase False True False False = 0 \<and>
   pauli_product_phase False True True False = 1 \<and>
   pauli_product_phase False True True True = - 1 \<and>
   pauli_product_phase False True False True = 0 \<and>
   (\<forall>x1 z1 x1' z1' x2 z2.
      (pauli_product_phase (x1 \<noteq> x1') (z1 \<noteq> z1') x2 z2) mod 2 =
      (pauli_product_phase x1 z1 x2 z2 + pauli_product_phase x1' z1' x2 z2) mod 2) \<and>
   (\<forall>x1 z1 x2 z2 x2' z2'.
      (pauli_product_phase x1 z1 (x2 \<noteq> x2') (z2 \<noteq> z2')) mod 2 =
      (pauli_product_phase x1 z1 x2 z2 + pauli_product_phase x1 z1 x2' z2') mod 2)"
  by (simp add: pauli_product_phase_def)

text \<open>
  C5, the claim as stated: additivity of the phase itself fails, since Y is X + Z bitwise
  and the phase of (Y, X) is -1 while the phases of (X, X) and (Z, X) add up to 1.
\<close>

theorem pauli_product_phase_not_bilinear:
  "pauli_product_phase (True \<noteq> False) (False \<noteq> True) True False \<noteq>
   pauli_product_phase True False True False + pauli_product_phase False True True False"
  by (simp add: pauli_product_phase_def)

lemma and_then_Inr [simp]: "and_then (Inr v) f = f v"
  by (simp add: and_then_def)

lemma col_index_in_range [simp]:
  "0 \<le> q \<Longrightarrow> q < int m \<Longrightarrow> col_index m q = Inr (nat q)"
  by (simp add: col_index_def)

lemma well_formed_new: "well_formed (new k)"
  by (auto simp: well_formed_def new_def eye_def)

lemma well_formed_row:
  "well_formed s \<Longrightarrow> i \<le> 2 * sim_n s \<Longrightarrow> length (sim_table s ! i) = 2 * sim_n s + 1"
  by (simp add: well_formed_def)

lemma sim_n_hadamard_cols [simp]: "sim_n (hadamard_cols s q) = sim_n s"
  by (simp add: hadamard_cols_def Let_def upd_rows_def)

lemma sim_n_phase_cols [simp]: "sim_n (phase_cols s q) = sim_n s"
  by (simp add: phase_cols_def Let_def upd_rows_def)

lemma sim_n_cnot_cols [simp]: "sim_n (cnot_cols s c t) = sim_n s"
  by (simp add: cnot_cols_def Let_def upd_rows_def)

lemma sim_table_hadamard_cols:
  "q < sim_n s \<Longrightarrow> well_formed s \<Longrightarrow>
   sim_table (hadamard_cols s q) = map (hadamard_row (sim_n s) q) (sim_table s)"
  unfolding hadamard_cols_def Let_def
  by (auto simp: upd_rows_def well_formed_def hadamard_row_def list_eq_iff_nth_eq
      nth_list_update)

lemma sim_table_phase_cols:
  "q < sim_n s \<Longrightarrow> well_formed s \<Longrightarrow>
   sim_table (phase_cols s q) = map (phase_row (sim_n s) q) (sim_table s)"
  unfolding phase_cols_def Let_def
  by (auto simp: upd_rows_def well_formed_def phase_row_def list_eq_iff_nth_eq
      nth_list_update)

lemma sim_table_cnot_cols:
  "c < sim_n s \<Longrightarrow> t < sim_n s \<Longrightarrow> c \<noteq> t \<Longrightarrow> well_formed s \<Longrightarrow>
   sim_table (cnot_cols s c t) = map (cnot_row (sim_n s) c t) (sim_table s)"
  unfolding cnot_cols_def Let_def
  by (auto simp: upd_rows_def well_formed_def cnot_row_def list_eq_iff_nth_eq
      nth_list_update)

lemma length_hadamard_row [simp]: "length (hadamard_row n q row) = length row"
  by (simp add: hadamard_row_def)

lemma length_phase_row [simp]: "length (phase_row n q row) = length row"
  by (simp add: phase_row_def)

lemma length_cnot_row [simp]: "length (cnot_row n c t row) = length row"
  by (simp add: cnot_row_def)

lemma well_formed_hadamard_cols:
  "q < sim_n s \<Longrightarrow> well_formed s \<Longrightarrow> well_formed (hadamard_cols s q)"
  using sim_table_hadamard_cols [of q s] by (auto simp: well_formed_def)

lemma well_formed_phase_cols:
  "q < sim_n s \<Longrightarrow> well_formed s \<Longrightarrow> well_formed (phase_cols s q)"
  using sim_table_phase_cols [of q s] by (auto simp: well_formed_def)

lemma well_formed_cnot_cols:
  "c < sim_n s \<Longrightarrow> t < sim_n s \<Longrightarrow> c \<noteq> t \<Longrightarrow> well_formed s \<Longrightarrow>
   well_formed (cnot_cols s c t)"
  using sim_table_cnot_cols [of c s t] by (auto simp: well_formed_def)

lemma hadamard_row_twice:
  "q < n \<Longrightarrow> length row = 2 * n + 1 \<Longrightarrow> hadamard_row n q (hadamard_row n q row) = row"
  by (auto simp: hadamard_row_def list_eq_iff_nth_eq nth_list_update)

lemma phase_row_four_times:
  "q < n \<Longrightarrow> length row = 2 * n + 1 \<Longrightarrow>
   phase_row n q (phase_row n q (phase_row n q (phase_row n q row))) = row"
  by (auto simp: phase_row_def list_eq_iff_nth_eq nth_list_update)

lemma cnot_row_twice:
  "c < n \<Longrightarrow> t < n \<Longrightarrow> c \<noteq> t \<Longrightarrow> length row = 2 * n + 1 \<Longrightarrow>
   cnot_row n c t (cnot_row n c t row) = row"
  by (auto simp: cnot_row_def list_eq_iff_nth_eq nth_list_update)

lemma hadamard_cols_twice:
  assumes "q < sim_n s" "well_formed s"
  shows "hadamard_cols (hadamard_cols s q) q = s"
proof (rule ChpSimulator.equality)
  show "sim_table (hadamard_cols (hadamard_cols s q) q) = sim_table s"
    using assms
    by (simp add: sim_table_hadamard_cols well_formed_hadamard_cols map_idI
        hadamard_row_twice well_formed_def)
qed simp_all

lemma phase_cols_four_times:
  assumes "q < sim_n s" "well_formed s"
  shows "phase_cols (phase_cols (phase_cols (phase_cols s q) q) q) q = s"
proof (rule ChpSimulator.equality)
  show "sim_table (phase_cols (phase_cols (phase_cols (phase_cols s q) q) q) q) = sim_table s"
    using assms
    by (simp add: sim_table_phase_cols well_formed_phase_cols map_idI
        phase_row_four_times well_formed_def)
qed simp_all

lemma cnot_cols_twice:
  assumes "c < sim_n s" "t < sim_n s" "c \<noteq> t" "well_formed s"
  shows "cnot_cols (cnot_cols s c t) c t = s"
proof (rule ChpSimulator.equality)
  show "sim_table (cnot_cols (cnot_cols s c t) c t) = sim_table s"
    using assms
    by (simp add: sim_table_cnot_cols well_formed_cnot_cols map_idI
        cnot_row_twice well_formed_def)
qed simp_all

lemma xor_list_xor:
  "xor_list (map (\<lambda>j. f j \<noteq> g j) js) = (xor_list (map f js) \<noteq> xor_list (map g js))"
  by (induction js) auto

lemma xor_list_False: "xor_list (map (\<lambda>j. False) js) = False"
  by (induction js) auto

lemma xor_list_and: "xor_list (map (\<lambda>j. c \<and> f j) js) = (c \<and> xor_list (map f js))"
  by (induction js) auto

lemma xor_list_remove:
  "distinct js \<Longrightarrow>
   xor_list (map f js) = (xor_list (map (f(c := False)) js) \<noteq> (c \<in> set js \<and> f c))"
proof (induction js)
  case Nil
  then show ?case by simp
next
  case (Cons j js)
  show ?case
  proof (cases "j = c")
    case True
    with Cons.prems have "c \<notin> set js" by simp
    then have eq: "map (f(c := False)) js = map f js" by (auto intro: map_cong)
    show ?thesis unfolding True list.map xor_list.simps eq by auto
  next
    case False
    with Cons show ?thesis by auto
  qed
qed

lemma odd_sum_list: "odd (sum_list (map f js)) = xor_list (map (\<lambda>j. odd (f j :: int)) js)"
  by (induction js) auto

lemma odd_pauli_product_phase:
  "odd (pauli_product_phase x1 z1 x2 z2) = ((x1 \<and> z2) \<noteq> (z1 \<and> x2))"
  by (auto simp: pauli_product_phase_def)

lemma odd_row_phases: "odd (row_phases n a b) = anticommute n a b"
  by (simp add: row_phases_def anticommute_def odd_sum_list odd_pauli_product_phase)

lemma anticommute_sym: "anticommute n a b = anticommute n b a"
  unfolding anticommute_def
  by (rule arg_cong [where f = xor_list], rule map_cong) auto

lemma anticommute_self: "anticommute n a a = False"
proof -
  have eq: "map (\<lambda>j. (a ! j \<and> a ! (n + j)) \<noteq> (a ! (n + j) \<and> a ! j)) [0..<n] = map (\<lambda>j. False) [0..<n]"
    by (rule map_cong) auto
  show ?thesis unfolding anticommute_def eq by (rule xor_list_False)
qed

lemma length_mult_row [simp]: "length (mult_row n a b) = 2 * n + 1"
  by (simp add: mult_row_def)

lemma nth_mult_row:
  "j < 2 * n \<Longrightarrow> mult_row n a b ! j = (a ! j \<noteq> b ! j)"
  "mult_row n a b ! (2 * n) = row_sign n a b"
  by (simp_all add: mult_row_def nth_append del: upt_Suc)

lemma anticommute_mult_row:
  "anticommute n (mult_row n a b) c = (anticommute n a c \<noteq> anticommute n b c)"
proof -
  have eq: "map (\<lambda>j. (mult_row n a b ! j \<and> c ! (n + j)) \<noteq> (mult_row n a b ! (n + j) \<and> c ! j)) [0..<n]
      = map (\<lambda>j. ((a ! j \<and> c ! (n + j)) \<noteq> (a ! (n + j) \<and> c ! j)) \<noteq>
                  ((b ! j \<and> c ! (n + j)) \<noteq> (b ! (n + j) \<and> c ! j))) [0..<n]"
    by (rule map_cong) (auto simp: nth_mult_row)
  show ?thesis unfolding anticommute_def eq by (rule xor_list_xor)
qed

lemma anticommute_mult_row2:
  "anticommute n c (mult_row n a b) = (anticommute n c a \<noteq> anticommute n c b)"
  by (metis anticommute_mult_row anticommute_sym)

lemma anticommute_cong:
  "(\<And>j. j < 2 * n \<Longrightarrow> a ! j = a' ! j) \<Longrightarrow> (\<And>j. j < 2 * n \<Longrightarrow> b ! j = b' ! j) \<Longrightarrow>
   anticommute n a b = anticommute n a' b'"
  unfolding anticommute_def
  by (rule arg_cong [where f = xor_list], rule map_cong) auto

lemma anticommute_hadamard_row:
  assumes "q < n" "length a = 2 * n + 1" "length b = 2 * n + 1"
  shows "anticommute n (hadamard_row n q a) (hadamard_row n q b) = anticommute n a b"
  unfolding anticommute_def
  by (rule arg_cong [where f = xor_list], rule map_cong)
     (use assms in \<open>auto simp: hadamard_row_def nth_list_update\<close>)

lemma anticommute_phase_row:
  assumes "q < n" "length a = 2 * n + 1" "length b = 2 * n + 1"
  shows "anticommute n (phase_row n q a) (phase_row n q b) = anticommute n a b"
  unfolding anticommute_def
  by (rule arg_cong [where f = xor_list], rule map_cong)
     (use assms in \<open>auto simp: phase_row_def nth_list_update\<close>)

lemma xor_list_two_points:
  assumes "distinct js" "c \<in> set js" "t \<in> set js" "c \<noteq> t"
    and "\<And>j. j \<in> set js \<Longrightarrow> j \<noteq> c \<Longrightarrow> j \<noteq> t \<Longrightarrow> g j = f j"
    and "(g c \<noteq> g t) = (f c \<noteq> f t)"
  shows "xor_list (map g js) = xor_list (map f js)"
proof -
  have eq: "map (g(c := False, t := False)) js = map (f(c := False, t := False)) js"
    by (rule map_cong) (use assms(5) in auto)
  have split: "xor_list (map h js) = ((xor_list (map (h(c := False, t := False)) js) \<noteq> h t) \<noteq> h c)"
    for h
    by (subst xor_list_remove [OF assms(1), of h c],
        subst xor_list_remove [OF assms(1), of "h(c := False)" t])
       (use assms(2-4) in simp)
  show ?thesis
    unfolding split [of g] split [of f] eq using assms(6) by blast
qed

lemma anticommute_cnot_row:
  assumes "c < n" "t < n" "c \<noteq> t" "length a = 2 * n + 1" "length b = 2 * n + 1"
  shows "anticommute n (cnot_row n c t a) (cnot_row n c t b) = anticommute n a b"
  unfolding anticommute_def
  by (rule xor_list_two_points [where c = c and t = t])
     (use assms in \<open>auto simp: cnot_row_def nth_list_update\<close>)

lemma row_product_sign_eq:
  "row_product_sign s i k =
     (if anticommute (sim_n s) (sim_table s ! i) (sim_table s ! k) then Inl AssertionError
      else Inr (row_sign (sim_n s) (sim_table s ! i) (sim_table s ! k)))"
proof -
  have "sum_list (map (\<lambda>j. pauli_product_phase (x_at s i j) (z_at s i j) (x_at s k j) (z_at s k j))
          [0..<sim_n s]) = row_phases (sim_n s) (sim_table s ! i) (sim_table s ! k)"
    by (simp add: row_phases_def x_at_def z_at_def)
  then show ?thesis
    by (simp add: row_product_sign_def Let_def r_at_def row_sign_def odd_row_phases [symmetric]
        odd_iff_mod_2_eq_one)
qed

lemma length_xor_slice [simp]: "length (xor_slice lo hi a b) = length a"
  by (simp add: xor_slice_def)

lemma nth_xor_slice:
  "j < length a \<Longrightarrow>
   xor_slice lo hi a b ! j = (if lo \<le> j \<and> j < hi then (a ! j \<noteq> b ! j) else a ! j)"
  by (simp add: xor_slice_def)

lemma nth_mult_row_if:
  "j < 2 * n + 1 \<Longrightarrow>
   mult_row n a b ! j = (if j < 2 * n then (a ! j \<noteq> b ! j) else row_sign n a b)"
  unfolding mult_row_def by (subst nth_map_upt) simp_all

lemma mult_row_steps:
  assumes "length a = 2 * n + 1" "length b = 2 * n + 1"
  shows "xor_slice n (2 * n) (xor_slice 0 n (a[2 * n := row_sign n a b]) b) b = mult_row n a b"
proof (rule nth_equalityI)
  show "length (xor_slice n (2 * n) (xor_slice 0 n (a[2 * n := row_sign n a b]) b) b) =
        length (mult_row n a b)"
    using assms by simp
next
  fix j
  assume "j < length (xor_slice n (2 * n) (xor_slice 0 n (a[2 * n := row_sign n a b]) b) b)"
  then have j: "j < 2 * n + 1" using assms by simp
  then show "xor_slice n (2 * n) (xor_slice 0 n (a[2 * n := row_sign n a b]) b) b ! j =
        mult_row n a b ! j"
    using assms by (auto simp: nth_xor_slice nth_mult_row_if nth_list_update)
qed

lemma row_mult_eq:
  assumes "well_formed s" "i \<le> 2 * sim_n s" "k \<le> 2 * sim_n s" "i \<noteq> k"
  shows "row_mult s i k =
     (if anticommute (sim_n s) (sim_table s ! i) (sim_table s ! k) then Inl AssertionError
      else Inr (s\<lparr>sim_table := (sim_table s)
                  [i := mult_row (sim_n s) (sim_table s ! i) (sim_table s ! k)]\<rparr>))"
proof -
  have len: "length (sim_table s) = 2 * sim_n s + 1"
    "length (sim_table s ! i) = 2 * sim_n s + 1" "length (sim_table s ! k) = 2 * sim_n s + 1"
    using assms by (simp_all add: well_formed_def)
  show ?thesis
    using assms(2-4) len
    by (simp add: row_mult_def row_product_sign_eq Let_def mult_row_steps)
qed

lemma well_formed_update:
  "well_formed s \<Longrightarrow> length row = 2 * sim_n s + 1 \<Longrightarrow>
   well_formed (s\<lparr>sim_table := (sim_table s)[i := row]\<rparr>)"
  by (auto simp: well_formed_def dest!: set_update_subset_insert [THEN subsetD])

lemma random_rows_Nil: "random_rows n t a p [] = t"
  by (simp add: random_rows_def map_nth)

lemma length_random_rows [simp]: "length (random_rows n t a p rows) = length t"
  by (simp add: random_rows_def)

lemma nth_random_rows:
  "i < length t \<Longrightarrow> random_rows n t a p rows ! i =
     (if i \<in> set rows \<and> t ! i ! a \<and> i \<noteq> p \<and> i \<noteq> p + n
      then mult_row n (t ! i) (t ! p) else t ! i)"
  by (simp add: random_rows_def)

lemma random_rows_step:
  assumes "i < length t" "i \<notin> set rest" "i \<noteq> p" "i \<noteq> p + n" "t ! i ! a"
  shows "random_rows n (t[i := mult_row n (t ! i) (t ! p)]) a p rest = random_rows n t a p (i # rest)"
  by (rule nth_equalityI) (use assms in \<open>auto simp: nth_random_rows nth_list_update\<close>)

lemma random_rows_skip:
  assumes "\<not> (t ! i ! a \<and> i \<noteq> p \<and> i \<noteq> p + n)"
  shows "random_rows n t a p (i # rest) = random_rows n t a p rest"
  by (rule nth_equalityI) (use assms in \<open>auto simp: nth_random_rows\<close>)

lemma measure_random_loop_eq:
  assumes "well_formed s" "p < sim_n s" "distinct rows" "set rows \<subseteq> {..<2 * sim_n s}"
    and "\<And>i. i \<in> set rows \<Longrightarrow> sim_table s ! i ! a \<Longrightarrow> i \<noteq> p \<Longrightarrow> i \<noteq> p + sim_n s \<Longrightarrow>
           \<not> anticommute (sim_n s) (sim_table s ! i) (sim_table s ! p)"
  shows "measure_random_loop s a p rows =
           Inr (s\<lparr>sim_table := random_rows (sim_n s) (sim_table s) a p rows\<rparr>)"
  using assms
proof (induction rows arbitrary: s)
  case Nil
  then show ?case by (simp add: random_rows_Nil)
next
  case (Cons i rest)
  let ?n = "sim_n s" and ?t = "sim_table s"
  have len: "length ?t = 2 * ?n + 1" using Cons.prems(1) by (simp add: well_formed_def)
  have i: "i < 2 * ?n" "i \<notin> set rest" using Cons.prems(3,4) by auto
  show ?case
  proof (cases "?t ! i ! a \<and> i \<noteq> p \<and> i \<noteq> p + ?n")
    case True
    let ?m = "mult_row ?n (?t ! i) (?t ! p)"
    let ?s1 = "s\<lparr>sim_table := ?t[i := ?m]\<rparr>"
    have comm: "\<not> anticommute ?n (?t ! i) (?t ! p)"
      using Cons.prems(5) [of i] True by simp
    have rm: "row_mult s i p = Inr ?s1"
      using Cons.prems(1,2) i True comm by (simp add: row_mult_eq)
    have wf1: "well_formed ?s1"
      using Cons.prems(1) by (simp add: well_formed_update)
    have ih: "measure_random_loop ?s1 a p rest =
        Inr (?s1\<lparr>sim_table := random_rows (sim_n ?s1) (sim_table ?s1) a p rest\<rparr>)"
    proof (rule Cons.IH [OF wf1])
      show "p < sim_n ?s1" using Cons.prems(2) by simp
      show "distinct rest" using Cons.prems(3) by simp
      show "set rest \<subseteq> {..<2 * sim_n ?s1}" using Cons.prems(4) by simp
    next
      fix j
      assume j: "j \<in> set rest" "sim_table ?s1 ! j ! a" "j \<noteq> p" "j \<noteq> p + sim_n ?s1"
      then have "j \<noteq> i" using i by auto
      then show "\<not> anticommute (sim_n ?s1) (sim_table ?s1 ! j) (sim_table ?s1 ! p)"
        using Cons.prems(5) [of j] j True by simp
    qed
    have "random_rows ?n (?t[i := ?m]) a p rest = random_rows ?n ?t a p (i # rest)"
      using i True len by (intro random_rows_step) simp_all
    with ih rm True show ?thesis by (simp add: x_at_def)
  next
    case False
    have "measure_random_loop s a p rest =
        Inr (s\<lparr>sim_table := random_rows ?n ?t a p rest\<rparr>)"
      using Cons.prems by (intro Cons.IH) auto
    moreover have "random_rows ?n ?t a p (i # rest) = random_rows ?n ?t a p rest"
      using False by (rule random_rows_skip)
    moreover have "measure_random_loop s a p (i # rest) = measure_random_loop s a p rest"
      using False by (auto simp: x_at_def)
    ultimately show ?thesis by simp
  qed
qed

lemma det_acc_cong:
  "(\<And>i. i \<in> set rows \<Longrightarrow> t' ! i = t ! i \<and> t' ! (i + n) = t ! (i + n)) \<Longrightarrow>
   det_acc n t' a rows acc = det_acc n t a rows acc"
  by (induction rows arbitrary: acc) auto

lemma length_det_acc:
  "length acc = 2 * n + 1 \<Longrightarrow> length (det_acc n t a rows acc) = 2 * n + 1"
  by (induction rows arbitrary: acc) auto

lemma measure_determined_loop_eq:
  assumes "well_formed s" "set rows \<subseteq> {..<sim_n s}"
    and "stabilizers_commute (sim_n s) (sim_table s)"
    and "\<And>j. j < sim_n s \<Longrightarrow>
           \<not> anticommute (sim_n s) (sim_table s ! (2 * sim_n s)) (sim_table s ! (sim_n s + j))"
  shows "measure_determined_loop s a rows =
           Inr (s\<lparr>sim_table := (sim_table s)[2 * sim_n s :=
                  det_acc (sim_n s) (sim_table s) a rows (sim_table s ! (2 * sim_n s))]\<rparr>)"
  using assms
proof (induction rows arbitrary: s)
  case Nil
  then show ?case by simp
next
  case (Cons i rest)
  let ?n = "sim_n s" and ?t = "sim_table s"
  have len: "length ?t = 2 * ?n + 1" using Cons.prems(1) by (simp add: well_formed_def)
  have i: "i < ?n" using Cons.prems(2) by simp
  show ?case
  proof (cases "?t ! i ! a")
    case True
    let ?m = "mult_row ?n (?t ! (2 * ?n)) (?t ! (i + ?n))"
    let ?s1 = "s\<lparr>sim_table := ?t[2 * ?n := ?m]\<rparr>"
    have comm: "\<not> anticommute ?n (?t ! (2 * ?n)) (?t ! (i + ?n))"
      using Cons.prems(4) [of i] i by (simp add: add.commute)
    have rm: "row_mult s (2 * ?n) (i + ?n) = Inr ?s1"
      using Cons.prems(1) i comm by (simp add: row_mult_eq)
    have wf1: "well_formed ?s1"
      using Cons.prems(1) by (simp add: well_formed_update)
    have ih: "measure_determined_loop ?s1 a rest =
        Inr (?s1\<lparr>sim_table := (sim_table ?s1)[2 * sim_n ?s1 :=
               det_acc (sim_n ?s1) (sim_table ?s1) a rest (sim_table ?s1 ! (2 * sim_n ?s1))]\<rparr>)"
    proof (rule Cons.IH [OF wf1])
      show "set rest \<subseteq> {..<sim_n ?s1}" using Cons.prems(2) by simp
      show "stabilizers_commute (sim_n ?s1) (sim_table ?s1)"
        using Cons.prems(3) by (simp add: stabilizers_commute_def)
    next
      fix j
      assume "j < sim_n ?s1"
      then have j: "j < ?n" by simp
      have "\<not> anticommute ?n (?t ! (?n + i)) (?t ! (?n + j))"
        using Cons.prems(3) i j by (simp add: stabilizers_commute_def)
      moreover have "\<not> anticommute ?n (?t ! (2 * ?n)) (?t ! (?n + j))"
        using Cons.prems(4) j by simp
      ultimately show "\<not> anticommute (sim_n ?s1) (sim_table ?s1 ! (2 * sim_n ?s1))
          (sim_table ?s1 ! (sim_n ?s1 + j))"
        using j len by (simp add: anticommute_mult_row add.commute)
    qed
    have "det_acc ?n (?t[2 * ?n := ?m]) a rest ?m = det_acc ?n ?t a rest ?m"
      using Cons.prems(2) by (intro det_acc_cong) auto
    with ih rm True len show ?thesis by (simp add: x_at_def)
  next
    case False
    have "measure_determined_loop s a rest =
        Inr (s\<lparr>sim_table := ?t[2 * ?n := det_acc ?n ?t a rest (?t ! (2 * ?n))]\<rparr>)"
      using Cons.prems by (intro Cons.IH) auto
    with False show ?thesis by (simp add: x_at_def)
  qed
qed

lemma length_zero_row [simp]: "length (zero_row n) = 2 * n + 1"
  by (simp add: zero_row_def)

lemma nth_zero_row [simp]: "j < 2 * n + 1 \<Longrightarrow> zero_row n ! j = False"
  unfolding zero_row_def by (rule nth_replicate)

lemma anticommute_zero: "anticommute n (zero_row n) b = False"
proof -
  have eq: "map (\<lambda>j. (zero_row n ! j \<and> b ! (n + j)) \<noteq>
                (zero_row n ! (n + j) \<and> b ! j)) [0..<n] = map (\<lambda>j. False) [0..<n]"
    by (rule map_cong) auto
  show ?thesis unfolding anticommute_def eq by (rule xor_list_False)
qed

lemma measure_determined_eq:
  assumes "well_formed s" "stabilizers_commute (sim_n s) (sim_table s)"
  shows "measure_determined s a =
     Inr (\<lparr>res_value = det_row s a ! (2 * sim_n s), res_determined = True\<rparr>,
          s\<lparr>sim_table := (sim_table s)[2 * sim_n s := det_row s a]\<rparr>)"
proof -
  let ?n = "sim_n s" and ?t = "sim_table s"
  let ?z = "zero_row ?n"
  let ?s0 = "s\<lparr>sim_table := ?t[2 * ?n := ?z]\<rparr>"
  have len: "length ?t = 2 * ?n + 1" "length (?t ! (2 * ?n)) = 2 * ?n + 1"
    using assms(1) by (simp_all add: well_formed_def)
  have z: "map (\<lambda>_. False) (?t ! (2 * ?n)) = ?z"
    using len unfolding zero_row_def by (simp only: map_replicate_const)
  have wf0: "well_formed ?s0" using assms(1) by (simp add: well_formed_update)
  have loop: "measure_determined_loop ?s0 a [0..<?n] =
      Inr (?s0\<lparr>sim_table := (sim_table ?s0)[2 * sim_n ?s0 :=
             det_acc (sim_n ?s0) (sim_table ?s0) a [0..<?n] (sim_table ?s0 ! (2 * sim_n ?s0))]\<rparr>)"
  proof (rule measure_determined_loop_eq [OF wf0])
    show "set [0..<?n] \<subseteq> {..<sim_n ?s0}" by auto
    show "stabilizers_commute (sim_n ?s0) (sim_table ?s0)"
      using assms(2) by (simp add: stabilizers_commute_def)
  next
    fix j assume "j < sim_n ?s0"
    then show "\<not> anticommute (sim_n ?s0) (sim_table ?s0 ! (2 * sim_n ?s0))
        (sim_table ?s0 ! (sim_n ?s0 + j))"
      using len by (simp add: anticommute_zero)
  qed
  have "det_acc ?n (?t[2 * ?n := ?z]) a [0..<?n] ?z = det_acc ?n ?t a [0..<?n] ?z"
    by (intro det_acc_cong) auto
  with loop len z show ?thesis
    by (simp add: measure_determined_def Let_def det_row_def r_at_def)
qed

lemma xor_list_single:
  "distinct js \<Longrightarrow> xor_list (map (\<lambda>j. j = c \<and> f j) js) = (c \<in> set js \<and> f c)"
  by (induction js) auto

lemma length_z_row [simp]: "length (z_row n a b) = 2 * n + 1"
  by (simp add: z_row_def)

lemma nth_z_row:
  "a < n \<Longrightarrow> j < 2 * n + 1 \<Longrightarrow>
   z_row n a b ! j = (if j = 2 * n then b else j = n + a)"
  by (auto simp: z_row_def nth_list_update)

lemma anticommute_z_row:
  assumes "a < n"
  shows "anticommute n r (z_row n a b) = r ! a"
proof -
  have eq: "map (\<lambda>j. (r ! j \<and> z_row n a b ! (n + j)) \<noteq> (r ! (n + j) \<and> z_row n a b ! j)) [0..<n]
      = map (\<lambda>j. j = a \<and> r ! j) [0..<n]"
    by (rule map_cong) (use assms in \<open>auto simp: nth_z_row\<close>)
  show ?thesis unfolding anticommute_def eq using assms by (simp add: xor_list_single)
qed

lemma length_collapse_rows [simp]: "length (collapse_rows n t a p b) = length t"
  by (simp add: collapse_rows_def)

lemma nth_collapse_rows:
  assumes "length t = 2 * n + 1" "p < n" "a < n" "t ! (p + n) ! a" "i < 2 * n + 1"
  shows "collapse_rows n t a p b ! i =
     (if i = p then t ! (p + n)
      else if i = p + n then z_row n a b
      else if i < 2 * n \<and> t ! i ! a then mult_row n (t ! i) (t ! (p + n))
      else t ! i)"
  using assms by (auto simp: collapse_rows_def nth_random_rows nth_list_update)

lemma measure_random_prepare_eq:
  assumes "well_formed s" "p < sim_n s"
  shows "measure_random_prepare s a p rnd bias =
     s\<lparr>sim_table := (sim_table s)[p := sim_table s ! (p + sim_n s),
                                     p + sim_n s := z_row (sim_n s) a (rnd < bias)]\<rparr>"
proof -
  let ?n = "sim_n s" and ?t = "sim_table s" and ?b = "rnd < bias"
  have len: "length ?t = 2 * ?n + 1" "length (?t ! (p + ?n)) = 2 * ?n + 1"
    using assms by (simp_all add: well_formed_def)
  have z: "((map (\<lambda>_. False) (?t ! (p + ?n)))[?n + a := True])[2 * ?n := ?b] = z_row ?n a ?b"
    using len unfolding z_row_def zero_row_def by (simp only: map_replicate_const)
  show ?thesis
    using len assms(2) z by (simp add: measure_random_prepare_def Let_def)
qed

lemma measure_random_eq:
  assumes inv: "tableau_inv s" and p: "p < sim_n s" and a: "a < sim_n s"
    and x: "sim_table s ! (p + sim_n s) ! a"
  shows "measure_random s a p rnd bias =
     Inr (\<lparr>res_value = (rnd < bias), res_determined = False\<rparr>,
          s\<lparr>sim_table := collapse_rows (sim_n s) (sim_table s) a p (rnd < bias)\<rparr>)"
proof -
  let ?n = "sim_n s" and ?t = "sim_table s" and ?b = "rnd < bias"
  let ?t4 = "?t[p := ?t ! (p + ?n), p + ?n := z_row ?n a ?b]"
  let ?s4 = "s\<lparr>sim_table := ?t4\<rparr>"
  have wf: "well_formed s" using inv by (simp add: tableau_inv_def)
  have len: "length ?t = 2 * ?n + 1" "length (?t ! (p + ?n)) = 2 * ?n + 1"
    using wf p by (simp_all add: well_formed_def)
  have t4: "measure_random_prepare s a p rnd bias = ?s4"
    using wf p by (rule measure_random_prepare_eq)
  have wf4: "well_formed ?s4"
  proof -
    have "well_formed (s\<lparr>sim_table := ?t[p := ?t ! (p + ?n)]\<rparr>)"
      using wf len by (simp add: well_formed_update)
    from well_formed_update [OF this, of "z_row ?n a ?b" "p + ?n"] show ?thesis by simp
  qed
  have loop: "measure_random_loop ?s4 a p [0..<2 * ?n] =
      Inr (?s4\<lparr>sim_table := random_rows (sim_n ?s4) (sim_table ?s4) a p [0..<2 * ?n]\<rparr>)"
  proof (rule measure_random_loop_eq [OF wf4])
    show "p < sim_n ?s4" using p by simp
    show "distinct [0..<2 * ?n]" by simp
    show "set [0..<2 * ?n] \<subseteq> {..<2 * sim_n ?s4}" by auto
  next
    fix i
    assume i: "i \<in> set [0..<2 * ?n]" "i \<noteq> p" "i \<noteq> p + sim_n ?s4"
    have rows: "sim_table ?s4 ! i = ?t ! i" "sim_table ?s4 ! p = ?t ! (p + ?n)"
      using i len p by simp_all
    have "\<not> anticommute ?n (?t ! i) (?t ! (p + ?n))"
    proof (cases "i < ?n")
      case True
      with inv p i show ?thesis
        by (simp add: tableau_inv_def destabilizers_paired_def add.commute)
    next
      case False
      then obtain i' where "i = ?n + i'" "i' < ?n" using i(1)
        by (metis add_diff_inverse_nat atLeastLessThan_iff mult_2 nat_add_left_cancel_less set_upt)
      with inv p show ?thesis
        by (simp add: tableau_inv_def stabilizers_commute_def add.commute)
    qed
    then show "\<not> anticommute (sim_n ?s4) (sim_table ?s4 ! i) (sim_table ?s4 ! p)"
      using rows by simp
  qed
  have val: "r_at (s\<lparr>sim_table := collapse_rows ?n ?t a p ?b\<rparr>) (p + ?n) = ?b"
    using nth_collapse_rows [OF len(1) p a x, of "p + ?n" ?b] p a
    by (simp add: r_at_def nth_z_row)
  show ?thesis
    unfolding measure_random_def t4 Let_def
    using x loop val
    by (simp add: x_at_def collapse_rows_def)
qed

lemma well_formed_nth:
  "well_formed s = (length (sim_table s) = 2 * sim_n s + 1 \<and>
     (\<forall>i < 2 * sim_n s + 1. length (sim_table s ! i) = 2 * sim_n s + 1))"
  unfolding well_formed_def by (metis in_set_conv_nth nth_mem)

lemma collapse_other:
  assumes "length t = 2 * n + 1" "p < n" "a < n" "t ! (p + n) ! a"
    and "i < 2 * n" "i \<noteq> p" "i \<noteq> p + n"
  shows "anticommute n (collapse_rows n t a p b ! i) r =
           (anticommute n (t ! i) r \<noteq> (t ! i ! a \<and> anticommute n (t ! (p + n)) r))"
    and "anticommute n r (collapse_rows n t a p b ! i) =
           (anticommute n r (t ! i) \<noteq> (t ! i ! a \<and> anticommute n r (t ! (p + n))))"
    and "collapse_rows n t a p b ! i ! a = False"
  using assms
  by (auto simp: nth_collapse_rows anticommute_mult_row anticommute_mult_row2 nth_mult_row_if)

lemma collapse_rows_inv:
  assumes inv: "tableau_inv s" and p: "p < sim_n s" and a: "a < sim_n s"
    and x: "sim_table s ! (p + sim_n s) ! a"
  shows "tableau_inv (s\<lparr>sim_table := collapse_rows (sim_n s) (sim_table s) a p b\<rparr>)"
proof -
  let ?n = "sim_n s" and ?t = "sim_table s"
  let ?T = "collapse_rows ?n ?t a p b"
  let ?S = "?t ! (p + ?n)"
  have wf: "well_formed s" and sc: "stabilizers_commute ?n ?t"
    and dp: "destabilizers_paired ?n ?t"
    using inv by (simp_all add: tableau_inv_def)
  have len: "length ?t = 2 * ?n + 1" using wf by (simp add: well_formed_def)
  have rowlen: "length (?t ! i) = 2 * ?n + 1" if "i < 2 * ?n + 1" for i
    using wf that by (simp add: well_formed_nth)
  note nth = nth_collapse_rows [OF len p a x]
  note other = collapse_other [OF len p a x]
  have Tp: "?T ! p = ?S" and Tpn: "?T ! (?n + p) = z_row ?n a b"
    using nth [of p] nth [of "p + ?n"] p by (simp_all add: add.commute)
  have SS: "\<not> anticommute ?n ?S (?t ! (?n + j))" if "j < ?n" for j
    using sc p that by (simp add: stabilizers_commute_def add.commute)
  have SS': "\<not> anticommute ?n (?t ! (?n + j)) ?S" if "j < ?n" for j
    using SS [OF that] by (simp add: anticommute_sym)
  have DS: "anticommute ?n (?t ! i) ?S = (i = p)" if "i < ?n" for i
    using dp p that by (simp add: destabilizers_paired_def add.commute)
  have S_T: "\<not> anticommute ?n ?S (?T ! (?n + j))" if "j < ?n" "j \<noteq> p" for j
    using other(2) [where i = "?n + j" and r = ?S and b = b] p that p SS [OF that(1)] SS [OF p]
    by (simp add: add.commute)
  have wf': "well_formed (s\<lparr>sim_table := ?T\<rparr>)"
    unfolding well_formed_nth
    using len rowlen p by (auto simp: nth)
  have sc': "stabilizers_commute ?n ?T"
    unfolding stabilizers_commute_def
  proof (intro allI impI)
    fix i j assume ij: "i < ?n" "j < ?n"
    show "\<not> anticommute ?n (?T ! (?n + i)) (?T ! (?n + j))"
    proof (cases "i = p")
      case True
      show ?thesis
      proof (cases "j = p")
        case True
        with \<open>i = p\<close> show ?thesis by (simp add: anticommute_self)
      next
        case False
        have "anticommute ?n (?T ! (?n + j)) (z_row ?n a b) = False"
          using other(3) [where i = "?n + j" and b = b] p ij False a by (simp add: anticommute_z_row)
        then show ?thesis using \<open>i = p\<close> by (simp add: Tpn anticommute_sym)
      qed
    next
      case False
      show ?thesis
      proof (cases "j = p")
        case True
        have "anticommute ?n (?T ! (?n + i)) (z_row ?n a b) = False"
          using other(3) [where i = "?n + i" and b = b] p ij False a by (simp add: anticommute_z_row)
        then show ?thesis using True by (simp add: Tpn)
      next
        case jp: False
        have "\<not> anticommute ?n (?t ! (?n + i)) (?T ! (?n + j))"
          using other(2) [where i = "?n + j" and r = "?t ! (?n + i)" and b = b] p ij jp sc SS' [OF ij(1)]
          by (simp add: stabilizers_commute_def)
        then show ?thesis
          using other(1) [where i = "?n + i" and r = "?T ! (?n + j)" and b = b] p ij False S_T [OF ij(2) jp]
          by simp
      qed
    qed
  qed
  have dp': "destabilizers_paired ?n ?T"
    unfolding destabilizers_paired_def
  proof (intro allI impI)
    fix i j assume ij: "i < ?n" "j < ?n"
    show "anticommute ?n (?T ! i) (?T ! (?n + j)) = (i = j)"
    proof (cases "i = p")
      case True
      show ?thesis
      proof (cases "j = p")
        case True
        with \<open>i = p\<close> x a show ?thesis by (simp add: Tp Tpn anticommute_z_row)
      next
        case False
        with \<open>i = p\<close> S_T [OF ij(2) False] show ?thesis by (auto simp: Tp)
      qed
    next
      case False
      show ?thesis
      proof (cases "j = p")
        case True
        have "anticommute ?n (?T ! i) (z_row ?n a b) = False"
          using other(3) [where i = i and b = b] p ij False a by (simp add: anticommute_z_row)
        then show ?thesis using True False by (simp add: Tpn)
      next
        case jp: False
        have "anticommute ?n (?t ! i) (?T ! (?n + j)) = (i = j)"
          using other(2) [where i = "?n + j" and r = "?t ! i" and b = b] p ij jp dp DS [OF ij(1)] False
          by (simp add: destabilizers_paired_def)
        then show ?thesis
          using other(1) [where i = i and r = "?T ! (?n + j)" and b = b] p ij False S_T [OF ij(2) jp]
          by simp
      qed
    qed
  qed
  show ?thesis using wf' sc' dp' by (simp add: tableau_inv_def)
qed

lemma nth_eye: "i < m \<Longrightarrow> j < m \<Longrightarrow> eye m ! i ! j = (i = j)"
  by (simp add: eye_def)

lemma tableau_inv_new: "tableau_inv (new k)"
proof -
  let ?t = "eye (2 * k + 1)"
  have sc: "stabilizers_commute k ?t"
    unfolding stabilizers_commute_def
  proof (intro allI impI)
    fix i j assume ij: "i < k" "j < k"
    have eq: "map (\<lambda>l. (?t ! (k + i) ! l \<and> ?t ! (k + j) ! (k + l)) \<noteq>
                 (?t ! (k + i) ! (k + l) \<and> ?t ! (k + j) ! l)) [0..<k] = map (\<lambda>l. False) [0..<k]"
      by (rule map_cong) (use ij in \<open>auto simp: nth_eye\<close>)
    show "\<not> anticommute k (?t ! (k + i)) (?t ! (k + j))"
      unfolding anticommute_def eq by (simp add: xor_list_False)
  qed
  have dp: "destabilizers_paired k ?t"
    unfolding destabilizers_paired_def
  proof (intro allI impI)
    fix i j assume ij: "i < k" "j < k"
    have eq: "map (\<lambda>l. (?t ! i ! l \<and> ?t ! (k + j) ! (k + l)) \<noteq>
                 (?t ! i ! (k + l) \<and> ?t ! (k + j) ! l)) [0..<k] = map (\<lambda>l. l = i \<and> i = j) [0..<k]"
      by (rule map_cong) (use ij in \<open>auto simp: nth_eye\<close>)
    show "anticommute k (?t ! i) (?t ! (k + j)) = (i = j)"
      unfolding anticommute_def eq using ij by (simp add: xor_list_single)
  qed
  show ?thesis
    using sc dp well_formed_new [of k] by (simp add: tableau_inv_def new_def)
qed

lemma tableau_inv_map:
  assumes inv: "tableau_inv s" and s': "sim_n s' = sim_n s" "sim_table s' = map f (sim_table s)"
    and len: "\<And>row. length (f row) = length row"
    and anti: "\<And>r1 r2. length r1 = 2 * sim_n s + 1 \<Longrightarrow> length r2 = 2 * sim_n s + 1 \<Longrightarrow>
       anticommute (sim_n s) (f r1) (f r2) = anticommute (sim_n s) r1 r2"
  shows "tableau_inv s'"
proof -
  let ?n = "sim_n s" and ?t = "sim_table s"
  have wf: "well_formed s" using inv by (simp add: tableau_inv_def)
  have lent: "length ?t = 2 * ?n + 1" using wf by (simp add: well_formed_def)
  have rowlen: "length (?t ! i) = 2 * ?n + 1" if "i < 2 * ?n + 1" for i
    using wf that by (simp add: well_formed_nth)
  have a: "anticommute ?n (map f ?t ! i) (map f ?t ! j) = anticommute ?n (?t ! i) (?t ! j)"
    if "i < 2 * ?n + 1" "j < 2 * ?n + 1" for i j
    using that lent rowlen anti by simp
  have "well_formed s'"
    using wf s' len by (simp add: well_formed_def)
  moreover have "stabilizers_commute ?n (map f ?t)"
    using inv by (simp add: tableau_inv_def stabilizers_commute_def a)
  moreover have "destabilizers_paired ?n (map f ?t)"
    using inv by (simp add: tableau_inv_def destabilizers_paired_def a)
  ultimately show ?thesis using s' by (simp add: tableau_inv_def)
qed

lemma tableau_inv_hadamard_cols:
  assumes "tableau_inv s" "q < sim_n s"
  shows "tableau_inv (hadamard_cols s q)"
  using assms(1)
proof (rule tableau_inv_map)
  show "sim_table (hadamard_cols s q) = map (hadamard_row (sim_n s) q) (sim_table s)"
    using assms by (simp add: sim_table_hadamard_cols tableau_inv_def)
qed (use assms in \<open>simp_all add: anticommute_hadamard_row\<close>)

lemma tableau_inv_phase_cols:
  assumes "tableau_inv s" "q < sim_n s"
  shows "tableau_inv (phase_cols s q)"
  using assms(1)
proof (rule tableau_inv_map)
  show "sim_table (phase_cols s q) = map (phase_row (sim_n s) q) (sim_table s)"
    using assms by (simp add: sim_table_phase_cols tableau_inv_def)
qed (use assms in \<open>simp_all add: anticommute_phase_row\<close>)

lemma tableau_inv_cnot_cols:
  assumes "tableau_inv s" "c < sim_n s" "t < sim_n s" "c \<noteq> t"
  shows "tableau_inv (cnot_cols s c t)"
  using assms(1)
proof (rule tableau_inv_map)
  show "sim_table (cnot_cols s c t) = map (cnot_row (sim_n s) c t) (sim_table s)"
    using assms by (simp add: sim_table_cnot_cols tableau_inv_def)
qed (use assms in \<open>simp_all add: anticommute_cnot_row\<close>)

lemma length_det_row [simp]: "length (det_row s a) = 2 * sim_n s + 1"
  by (simp add: det_row_def length_det_acc)

lemma tableau_inv_scratch:
  assumes "tableau_inv s" "length row = 2 * sim_n s + 1"
  shows "tableau_inv (s\<lparr>sim_table := (sim_table s)[2 * sim_n s := row]\<rparr>)"
  using assms
  by (simp add: tableau_inv_def well_formed_update stabilizers_commute_def
      destabilizers_paired_def)

lemma measure_scan_eq:
  "measure_scan s a rnd bias ps =
     (case find (\<lambda>p. sim_table s ! (p + sim_n s) ! a) ps of
        None \<Rightarrow> measure_determined s a
      | Some p \<Rightarrow> measure_random s a p rnd bias)"
  by (induction ps) (simp_all add: x_at_def)

lemma measure_sim_eq:
  assumes "0 \<le> q" "q < int (sim_n s)"
  shows "measure_sim s q rnd bias =
     (case find (\<lambda>p. sim_table s ! (p + sim_n s) ! nat q) [0..<sim_n s] of
        None \<Rightarrow> measure_determined s (nat q)
      | Some p \<Rightarrow> measure_random s (nat q) p rnd bias)"
  using assms by (simp add: measure_sim_def measure_scan_eq)

text \<open>What a measurement returns in a state that satisfies the invariant.\<close>

lemma measure_sim_cases:
  assumes inv: "tableau_inv s" and q: "0 \<le> q" "q < int (sim_n s)"
  shows "(\<exists>p < sim_n s. sim_table s ! (p + sim_n s) ! nat q \<and>
            (\<forall>p' < p. \<not> sim_table s ! (p' + sim_n s) ! nat q) \<and>
            measure_sim s q rnd bias = measure_random s (nat q) p rnd bias \<and>
            measure_sim s q rnd bias =
              Inr (\<lparr>res_value = (rnd < bias), res_determined = False\<rparr>,
                   s\<lparr>sim_table := collapse_rows (sim_n s) (sim_table s) (nat q) p (rnd < bias)\<rparr>))
       \<or> ((\<forall>p < sim_n s. \<not> sim_table s ! (p + sim_n s) ! nat q) \<and>
            measure_sim s q rnd bias = measure_determined s (nat q) \<and>
            measure_sim s q rnd bias =
              Inr (\<lparr>res_value = det_row s (nat q) ! (2 * sim_n s), res_determined = True\<rparr>,
                   s\<lparr>sim_table := (sim_table s)[2 * sim_n s := det_row s (nat q)]\<rparr>))"
proof (cases "find (\<lambda>p. sim_table s ! (p + sim_n s) ! nat q) [0..<sim_n s]")
  case None
  then have "\<forall>p < sim_n s. \<not> sim_table s ! (p + sim_n s) ! nat q"
    by (auto simp: find_None_iff)
  moreover have "measure_sim s q rnd bias = measure_determined s (nat q)"
    using None q by (simp add: measure_sim_eq)
  ultimately show ?thesis
    using inv by (simp add: measure_determined_eq tableau_inv_def)
next
  case (Some p)
  then have p: "p < sim_n s" "sim_table s ! (p + sim_n s) ! nat q"
    "\<forall>p' < p. \<not> sim_table s ! (p' + sim_n s) ! nat q"
    by (auto simp: find_Some_iff)
  have m: "measure_sim s q rnd bias = measure_random s (nat q) p rnd bias"
    using Some q by (simp add: measure_sim_eq)
  have "nat q < sim_n s" using q by simp
  from measure_random_eq [OF inv p(1) this p(2)] m p show ?thesis by auto
qed

lemma tableau_inv_measure_sim:
  assumes "tableau_inv s" "0 \<le> q" "q < int (sim_n s)" "measure_sim s q rnd bias = Inr (res, s')"
  shows "tableau_inv s'"
  using measure_sim_cases [OF assms(1-3), of rnd bias] assms
  by (auto simp: collapse_rows_inv tableau_inv_scratch)

lemma reachable_inv: "reachable s \<Longrightarrow> tableau_inv s"
proof (induction rule: reachable.induct)
  case (r_new k)
  then show ?case by (simp add: tableau_inv_new)
next
  case (r_cnot s c t s')
  then show ?case by (auto simp: cnot_def tableau_inv_cnot_cols)
next
  case (r_hadamard s q s')
  then show ?case by (auto simp: hadamard_def tableau_inv_hadamard_cols)
next
  case (r_phase s q s')
  then show ?case by (auto simp: phase_def tableau_inv_phase_cols)
next
  case (r_measure s q bias rnd res s')
  then show ?case using tableau_inv_measure_sim by blast
qed

lemma reachable_n: "reachable s \<Longrightarrow> 1 \<le> sim_n s"
proof (induction rule: reachable.induct)
  case (r_new k)
  then show ?case by (simp add: new_def)
next
  case (r_cnot s c t s')
  then show ?case by (auto simp: cnot_def)
next
  case (r_hadamard s q s')
  then show ?case by (auto simp: hadamard_def)
next
  case (r_phase s q s')
  then show ?case by (auto simp: phase_def)
next
  case (r_measure s q bias rnd res s')
  then show ?case
    using measure_sim_cases [OF reachable_inv [OF r_measure.hyps(1)], of q rnd bias] by auto
qed

text \<open>
  C7. In every reachable state and for qubit indices in range, \<open>hadamard(q)\<close> twice,
  \<open>phase(q)\<close> four times and \<open>cnot(c, t)\<close> twice with \<open>c \<noteq> t\<close> return without error and
  give back the very same state: the same \<open>n\<close> and the same table, scratch row included.
\<close>

theorem gates_self_inverse:
  assumes "reachable s"
  shows "(0 \<le> q \<and> q < int (sim_n s) \<longrightarrow>
            and_then (hadamard s q) (\<lambda>s1. hadamard s1 q) = Inr s) \<and>
         (0 \<le> q \<and> q < int (sim_n s) \<longrightarrow>
            and_then (phase s q) (\<lambda>s1. and_then (phase s1 q)
              (\<lambda>s2. and_then (phase s2 q) (\<lambda>s3. phase s3 q))) = Inr s) \<and>
         (0 \<le> c \<and> c < int (sim_n s) \<and> 0 \<le> t \<and> t < int (sim_n s) \<and> c \<noteq> t \<longrightarrow>
            and_then (cnot s c t) (\<lambda>s1. cnot s1 c t) = Inr s)"
proof -
  have wf: "well_formed s"
    using assms reachable_inv by (simp add: tableau_inv_def)
  have h: "and_then (hadamard s q) (\<lambda>s1. hadamard s1 q) = Inr s"
    if "0 \<le> q" "q < int (sim_n s)"
    using that wf by (simp add: hadamard_def hadamard_cols_twice)
  have p: "and_then (phase s q) (\<lambda>s1. and_then (phase s1 q)
              (\<lambda>s2. and_then (phase s2 q) (\<lambda>s3. phase s3 q))) = Inr s"
    if "0 \<le> q" "q < int (sim_n s)"
    using that wf by (simp add: phase_def phase_cols_four_times)
  have c: "and_then (cnot s c t) (\<lambda>s1. cnot s1 c t) = Inr s"
    if "0 \<le> c" "c < int (sim_n s)" "0 \<le> t" "t < int (sim_n s)" "c \<noteq> t"
    using that wf by (simp add: cnot_def cnot_cols_twice)
  show ?thesis using h p c by blast
qed

lemma reachable_new2: "reachable (new 2)"
  by (rule r_new) simp

lemma reachable_h0: "reachable (hadamard_cols (new 2) 0)"
  by (rule r_hadamard [OF reachable_new2, of 0]) (simp_all add: hadamard_def new_def)

theorem gates_self_inverse_witness:
  "and_then (hadamard (hadamard_cols (new 2) 0) 0) (\<lambda>s1. hadamard s1 0)
     = Inr (hadamard_cols (new 2) 0) \<and>
   and_then (phase (hadamard_cols (new 2) 0) 0) (\<lambda>s1. and_then (phase s1 0)
     (\<lambda>s2. and_then (phase s2 0) (\<lambda>s3. phase s3 0))) = Inr (hadamard_cols (new 2) 0) \<and>
   and_then (cnot (hadamard_cols (new 2) 0) 0 1) (\<lambda>s1. cnot s1 0 1)
     = Inr (hadamard_cols (new 2) 0)"
  using gates_self_inverse [OF reachable_h0, of 0 0 1] by (simp add: new_def)

text \<open>
  C4. In every reachable state the stabilizer rows pairwise commute and a destabilizer
  row anticommutes with its own stabilizer row and with no other, where two rows commute
  when \<open>_row_product_sign\<close> finds an even total phase, that is, when its assertion holds.
  Hence \<open>measure\<close> on a qubit in range returns a result: none of the row multiplications
  it makes trips the assertion.
\<close>

theorem reachable_commutation:
  assumes "reachable s"
  shows "(\<forall>i<sim_n s. \<forall>j<sim_n s.
            row_product_sign s (sim_n s + i) (sim_n s + j) \<noteq> Inl AssertionError) \<and>
         (\<forall>i<sim_n s. \<forall>j<sim_n s.
            (row_product_sign s i (sim_n s + j) = Inl AssertionError) = (i = j)) \<and>
         (\<forall>q rnd bias. 0 \<le> q \<and> q < int (sim_n s) \<longrightarrow>
            (\<exists>res s'. measure_sim s q rnd bias = Inr (res, s')))"
proof -
  have inv: "tableau_inv s" using assms by (rule reachable_inv)
  have "\<exists>res s'. measure_sim s q rnd bias = Inr (res, s')"
    if "0 \<le> q" "q < int (sim_n s)" for q rnd bias
    using measure_sim_cases [OF inv that, of rnd bias] by auto
  then show ?thesis
    using inv
    by (simp add: tableau_inv_def stabilizers_commute_def destabilizers_paired_def
        row_product_sign_eq)
qed

theorem reachable_commutation_witness:
  "row_product_sign (hadamard_cols (new 2) 0) (2 + 0) (2 + 1) \<noteq> Inl AssertionError \<and>
   row_product_sign (hadamard_cols (new 2) 0) 0 (2 + 0) = Inl AssertionError \<and>
   (\<exists>res s'. measure_sim (hadamard_cols (new 2) 0) 0 (1 / 4) (1 / 2) = Inr (res, s'))"
proof -
  have n: "sim_n (hadamard_cols (new 2) 0) = 2" by (simp add: new_def)
  note t = reachable_commutation [OF reachable_h0, unfolded n]
  have "row_product_sign (hadamard_cols (new 2) 0) (2 + 0) (2 + 1) \<noteq> Inl AssertionError"
    using t [THEN conjunct1, rule_format, of 0 1] by simp
  moreover have "row_product_sign (hadamard_cols (new 2) 0) 0 (2 + 0) = Inl AssertionError"
    using t [THEN conjunct2, THEN conjunct1, rule_format, of 0 0] by simp
  moreover have
    "\<exists>res s'. measure_sim (hadamard_cols (new 2) 0) 0 (1 / 4) (1 / 2) = Inr (res, s')"
    using t [THEN conjunct2, THEN conjunct2, rule_format, of 0 "1 / 4" "1 / 2"] by simp
  ultimately show ?thesis by blast
qed

lemma det_acc_single:
  assumes "distinct rows" "\<forall>i\<in>set rows. t ! i ! a = (i = p)"
  shows "det_acc n t a rows acc =
           (if p \<in> set rows then mult_row n acc (t ! (p + n)) else acc)"
  using assms
proof (induction rows arbitrary: acc)
  case Nil
  then show ?case by simp
next
  case (Cons i rest)
  show ?case
  proof (cases "i = p")
    case True
    then have "p \<notin> set rest" using Cons.prems(1) by simp
    then show ?thesis using Cons True by simp
  next
    case False
    then show ?thesis using Cons by simp
  qed
qed

lemma row_phases_zero: "row_phases n (zero_row n) b = 0"
proof -
  have eq: "map (\<lambda>j. pauli_product_phase (zero_row n ! j) (zero_row n ! (n + j)) (b ! j) (b ! (n + j)))
      [0..<n] = map (\<lambda>j. 0) [0..<n]"
    by (rule map_cong) (simp_all add: pauli_product_phase_def)
  show ?thesis unfolding row_phases_def eq by simp
qed

lemma sign_mult_zero_z_row:
  "a < n \<Longrightarrow> mult_row n (zero_row n) (z_row n a b) ! (2 * n) = b"
  by (simp add: nth_mult_row_if row_sign_def row_phases_zero nth_z_row)

lemma det_row_cong:
  assumes "sim_n s' = sim_n s" "\<And>i. i < 2 * sim_n s \<Longrightarrow> sim_table s' ! i = sim_table s ! i"
  shows "det_row s' a = det_row s a"
  unfolding det_row_def assms(1)
  by (rule det_acc_cong) (use assms(2) in auto)

text \<open>
  C1. In a reachable state, \<open>measure(q, bias)\<close> with \<open>q\<close> in range returns; its result has
  \<open>determined = False\<close> exactly when some stabilizer row \<open>p\<close> in \<open>[n, 2n)\<close> has
  \<open>x[p, q] = 1\<close>. It is then the call \<open>_measure_random(q, p - n, bias)\<close> for the smallest
  such \<open>p\<close>, and \<open>_measure_determined(q)\<close> when there is no such row.
\<close>

theorem measure_branch:
  assumes "reachable s" "0 \<le> q" "q < int (sim_n s)"
  shows "\<exists>res s'. measure_sim s q rnd bias = Inr (res, s') \<and>
      (res_determined res =
         (\<not> (\<exists>p. sim_n s \<le> p \<and> p < 2 * sim_n s \<and> x_at s p (nat q)))) \<and>
      (\<forall>p. sim_n s \<le> p \<and> p < 2 * sim_n s \<and> x_at s p (nat q) \<and>
           (\<forall>p'. sim_n s \<le> p' \<and> p' < p \<longrightarrow> \<not> x_at s p' (nat q)) \<longrightarrow>
           measure_sim s q rnd bias = measure_random s (nat q) (p - sim_n s) rnd bias) \<and>
      (\<not> (\<exists>p. sim_n s \<le> p \<and> p < 2 * sim_n s \<and> x_at s p (nat q)) \<longrightarrow>
           measure_sim s q rnd bias = measure_determined s (nat q))"
proof -
  let ?n = "sim_n s" and ?a = "nat q"
  have inv: "tableau_inv s" using assms(1) by (rule reachable_inv)
  from measure_sim_cases [OF inv assms(2,3), of rnd bias]
  consider
    (random) p0 where "p0 < ?n" "sim_table s ! (p0 + ?n) ! ?a"
      "\<forall>p' < p0. \<not> sim_table s ! (p' + ?n) ! ?a"
      "measure_sim s q rnd bias = measure_random s ?a p0 rnd bias"
      "measure_sim s q rnd bias =
         Inr (\<lparr>res_value = (rnd < bias), res_determined = False\<rparr>,
              s\<lparr>sim_table := collapse_rows ?n (sim_table s) ?a p0 (rnd < bias)\<rparr>)"
  | (determined) "\<forall>p < ?n. \<not> sim_table s ! (p + ?n) ! ?a"
      "measure_sim s q rnd bias = measure_determined s ?a"
      "measure_sim s q rnd bias =
         Inr (\<lparr>res_value = det_row s ?a ! (2 * ?n), res_determined = True\<rparr>,
              s\<lparr>sim_table := (sim_table s)[2 * ?n := det_row s ?a]\<rparr>)"
    by blast
  then show ?thesis
  proof cases
    case random
    have ex: "\<exists>p. ?n \<le> p \<and> p < 2 * ?n \<and> x_at s p ?a"
      using random(1,2) by (intro exI [of _ "p0 + ?n"]) (simp add: x_at_def)
    have least: "p - ?n = p0"
      if p: "?n \<le> p" "p < 2 * ?n" "x_at s p ?a"
        "\<forall>p'. ?n \<le> p' \<and> p' < p \<longrightarrow> \<not> x_at s p' ?a" for p
    proof (rule ccontr)
      assume ne: "p - ?n \<noteq> p0"
      show False
      proof (cases "p - ?n < p0")
        case True
        then have "\<not> sim_table s ! ((p - ?n) + ?n) ! ?a" using random(3) by blast
        then show False using p(1,3) by (simp add: x_at_def)
      next
        case False
        then have "p0 + ?n < p" using ne p(1) by linarith
        then have "\<not> x_at s (p0 + ?n) ?a" using p(4) by simp
        then show False using random(2) by (simp add: x_at_def)
      qed
    qed
    let ?R = "\<lparr>res_value = (rnd < bias), res_determined = False\<rparr>"
    have d: "res_determined ?R =
        (\<not> (\<exists>p. ?n \<le> p \<and> p < 2 * ?n \<and> x_at s p ?a))"
      using ex by simp
    have l: "\<forall>p. ?n \<le> p \<and> p < 2 * ?n \<and> x_at s p ?a \<and>
           (\<forall>p'. ?n \<le> p' \<and> p' < p \<longrightarrow> \<not> x_at s p' ?a) \<longrightarrow>
           measure_sim s q rnd bias = measure_random s ?a (p - ?n) rnd bias"
      using least random(4) by blast
    have e: "\<not> (\<exists>p. ?n \<le> p \<and> p < 2 * ?n \<and> x_at s p ?a) \<longrightarrow>
           measure_sim s q rnd bias = measure_determined s ?a"
      using ex by blast
    show ?thesis
      using random(5) d l e by blast
  next
    case determined
    have no: "\<not> (\<exists>p. ?n \<le> p \<and> p < 2 * ?n \<and> x_at s p ?a)"
    proof
      assume "\<exists>p. ?n \<le> p \<and> p < 2 * ?n \<and> x_at s p ?a"
      then obtain p where p: "?n \<le> p" "p < 2 * ?n" "x_at s p ?a" by blast
      then have "p - ?n < ?n" by linarith
      then have "\<not> sim_table s ! ((p - ?n) + ?n) ! ?a" using determined(1) by blast
      then show False using p by (simp add: x_at_def)
    qed
    let ?R = "\<lparr>res_value = det_row s ?a ! (2 * ?n), res_determined = True\<rparr>"
    have d: "res_determined ?R =
        (\<not> (\<exists>p. ?n \<le> p \<and> p < 2 * ?n \<and> x_at s p ?a))"
      using no by simp
    have l: "\<forall>p. ?n \<le> p \<and> p < 2 * ?n \<and> x_at s p ?a \<and>
           (\<forall>p'. ?n \<le> p' \<and> p' < p \<longrightarrow> \<not> x_at s p' ?a) \<longrightarrow>
           measure_sim s q rnd bias = measure_random s ?a (p - ?n) rnd bias"
      using no by blast
    show ?thesis
      using determined(2,3) d l by blast
  qed
qed

text \<open>
  C10. When no stabilizer row has its X bit on qubit \<open>q\<close> set, \<open>measure(q, bias)\<close> in a
  reachable state returns a determined result and leaves every row in \<open>[0, 2n)\<close> as it
  was, X bits, Z bits and sign; the table keeps its shape, so only row \<open>2n\<close> can differ.
\<close>

theorem determined_frame:
  assumes "reachable s" "0 \<le> q" "q < int (sim_n s)"
    and "\<forall>p. sim_n s \<le> p \<and> p < 2 * sim_n s \<longrightarrow> \<not> x_at s p (nat q)"
  shows "\<exists>res s'. measure_sim s q rnd bias = Inr (res, s') \<and> res_determined res \<and>
      sim_n s' = sim_n s \<and> length (sim_table s') = length (sim_table s) \<and>
      (\<forall>i<2 * sim_n s. sim_table s' ! i = sim_table s ! i)"
proof -
  let ?n = "sim_n s" and ?a = "nat q"
  have inv: "tableau_inv s" using assms(1) by (rule reachable_inv)
  have no: "\<not> sim_table s ! (p + ?n) ! ?a" if "p < ?n" for p
    using assms(4) that by (simp add: x_at_def)
  from measure_sim_cases [OF inv assms(2,3), of rnd bias] no
  have "measure_sim s q rnd bias =
         Inr (\<lparr>res_value = det_row s ?a ! (2 * ?n), res_determined = True\<rparr>,
              s\<lparr>sim_table := (sim_table s)[2 * ?n := det_row s ?a]\<rparr>)"
    by blast
  then show ?thesis by simp
qed

text \<open>
  C2. If \<open>measure(q, b1)\<close> in a reachable state returns a result with value \<open>v\<close>, then
  \<open>measure(q, b2)\<close> right after it returns the value \<open>v\<close> with \<open>determined = True\<close>,
  whatever the biases and the random draws are.
\<close>

theorem repeated_measure:
  assumes "reachable s" "0 \<le> q" "q < int (sim_n s)"
    and "measure_sim s q rnd1 bias1 = Inr (res1, s1)"
  shows "\<exists>s2. measure_sim s1 q rnd2 bias2 =
           Inr (\<lparr>res_value = res_value res1, res_determined = True\<rparr>, s2)"
proof -
  let ?n = "sim_n s" and ?a = "nat q" and ?t = "sim_table s"
  have inv: "tableau_inv s" using assms(1) by (rule reachable_inv)
  have a: "?a < ?n" using assms(2,3) by simp
  have len: "length ?t = 2 * ?n + 1" using inv by (simp add: tableau_inv_def well_formed_def)
  have inv1: "tableau_inv s1"
    using inv assms(2-4) by (rule tableau_inv_measure_sim)
  from measure_sim_cases [OF inv assms(2,3), of rnd1 bias1]
  consider
    (random) p0 where "p0 < ?n" "?t ! (p0 + ?n) ! ?a"
      "measure_sim s q rnd1 bias1 =
         Inr (\<lparr>res_value = (rnd1 < bias1), res_determined = False\<rparr>,
              s\<lparr>sim_table := collapse_rows ?n ?t ?a p0 (rnd1 < bias1)\<rparr>)"
  | (determined) "\<forall>p < ?n. \<not> ?t ! (p + ?n) ! ?a"
      "measure_sim s q rnd1 bias1 =
         Inr (\<lparr>res_value = det_row s ?a ! (2 * ?n), res_determined = True\<rparr>,
              s\<lparr>sim_table := ?t[2 * ?n := det_row s ?a]\<rparr>)"
    by blast
  then show ?thesis
  proof cases
    case random
    let ?b = "rnd1 < bias1"
    let ?T = "collapse_rows ?n ?t ?a p0 ?b"
    have s1: "s1 = s\<lparr>sim_table := ?T\<rparr>" and v: "res_value res1 = ?b"
      using random(3) assms(4) by auto
    have n1: "sim_n s1 = ?n" and t1: "sim_table s1 = ?T" using s1 by simp_all
    note nth = nth_collapse_rows [OF len random(1) a random(2)]
    note other = collapse_other [OF len random(1) a random(2)]
    have stab: "\<not> ?T ! (p + ?n) ! ?a" if "p < ?n" for p
    proof (cases "p = p0")
      case True
      then show ?thesis using nth [of "p0 + ?n" ?b] random(1) a by (simp add: nth_z_row)
    next
      case False
      then show ?thesis
        using other(3) [where i = "p + ?n" and b = ?b] that random(1) by simp
    qed
    have destab: "?T ! i ! ?a = (i = p0)" if "i < ?n" for i
    proof (cases "i = p0")
      case True
      then show ?thesis using nth [of p0 ?b] random(1,2) by simp
    next
      case False
      then show ?thesis
        using other(3) [where i = i and b = ?b] that random(1) by simp
    qed
    have "det_row s1 ?a = mult_row ?n (zero_row ?n) (?T ! (p0 + ?n))"
      unfolding det_row_def n1 t1
      using det_acc_single [of "[0..<?n]" ?T ?a p0 ?n "zero_row ?n"] destab random(1)
      by simp
    also have "?T ! (p0 + ?n) = z_row ?n ?a ?b"
      using nth [of "p0 + ?n" ?b] random(1) by simp
    finally have val: "det_row s1 ?a ! (2 * ?n) = ?b"
      using a by (simp add: sign_mult_zero_z_row)
    from measure_sim_cases [OF inv1, of q rnd2 bias2] assms(2,3) stab val v
    show ?thesis unfolding n1 t1 by auto
  next
    case determined
    let ?T = "?t[2 * ?n := det_row s ?a]"
    have s1: "s1 = s\<lparr>sim_table := ?T\<rparr>" and v: "res_value res1 = det_row s ?a ! (2 * ?n)"
      using determined(2) assms(4) by auto
    have n1: "sim_n s1 = ?n" and t1: "sim_table s1 = ?T" using s1 by simp_all
    have stab: "\<not> ?T ! (p + ?n) ! ?a" if "p < ?n" for p
      using determined(1) that by simp
    have "det_row s1 ?a = det_row s ?a"
      by (rule det_row_cong) (simp_all add: n1 t1)
    with measure_sim_cases [OF inv1, of q rnd2 bias2] assms(2,3) stab v
    show ?thesis unfolding n1 t1 by auto
  qed
qed

end
